theory Spec2Isabelle
  imports Complex_Main
begin

section \<open>CKTextKitRendererCache.h: the renderer cache key\<close>

text \<open>
  \<^verbatim>\<open>size_t\<close> values are only stored, compared and passed on in this header; no arithmetic is
  performed on them, so they are modelled as natural numbers.
\<close>

type_synonym size_t = nat

text \<open>The system enumeration \<^verbatim>\<open>UIUserInterfaceStyle\<close>.\<close>

datatype UIUserInterfaceStyle =
  UIUserInterfaceStyleUnspecified | UIUserInterfaceStyleLight | UIUserInterfaceStyleDark

text \<open>
  \<^verbatim>\<open>struct Key\<close>. The type \<^verbatim>\<open>CKTextKitAttributes\<close> is declared in another header and
  \<^verbatim>\<open>CGSize\<close> is a pair of floating-point numbers of the platform: both are type parameters
  (\<open>'a\<close> and \<open>'s\<close>), and their comparisons \<^verbatim>\<open>operator==\<close> of the attributes and
  \<^verbatim>\<open>CGSizeEqualToSize\<close> are parameters of the comparison of keys.
\<close>

record ('a, 's) Key =
  userInterfaceStyle :: UIUserInterfaceStyle
  attributes :: 'a
  constrainedSize :: 's
  hash :: size_t

text \<open>The four comparisons that \<^verbatim>\<open>Key::operator==\<close> can perform.\<close>

datatype comparison = CompareHash | CompareConstrainedSize | CompareAttributes | CompareUserInterfaceStyle

text \<open>
  The C++ operator \<^verbatim>\<open>&&\<close> evaluates its left operand first and its right operand only when
  the left one is true. \<open>and_also\<close> is that operator on evaluations that record which
  comparisons they performed: the right operand is a function of unit, evaluated (and
  its comparisons recorded) only after a true left operand.
\<close>

definition and_also :: "comparison list \<times> bool \<Rightarrow> (unit \<Rightarrow> comparison list \<times> bool) \<Rightarrow> comparison list \<times> bool" where
  "and_also l r = (if snd l then (fst l @ fst (r ()), snd (r ())) else l)"

text \<open>
  \<^verbatim>\<open>
  bool operator==(const Key &other) const
  {
    return hash == other.hash
    && CGSizeEqualToSize(constrainedSize, other.constrainedSize)
    && attributes == other.attributes
    && userInterfaceStyle == other.userInterfaceStyle;
  }
  \<close>
  \<^verbatim>\<open>&&\<close> associates to the left. The result is the list of comparisons performed, in
  the order performed, and the value returned.
\<close>

definition Key_eq_trace ::
  "('s \<Rightarrow> 's \<Rightarrow> bool) \<Rightarrow> ('a \<Rightarrow> 'a \<Rightarrow> bool) \<Rightarrow> ('a, 's) Key \<Rightarrow> ('a, 's) Key \<Rightarrow> comparison list \<times> bool" where
  "Key_eq_trace CGSizeEqualToSize attributes_eq k other =
     and_also
       (and_also
          (and_also ([CompareHash], hash k = hash other)
             (\<lambda>_. ([CompareConstrainedSize], CGSizeEqualToSize (constrainedSize k) (constrainedSize other))))
          (\<lambda>_. ([CompareAttributes], attributes_eq (attributes k) (attributes other))))
       (\<lambda>_. ([CompareUserInterfaceStyle], userInterfaceStyle k = userInterfaceStyle other))"

text \<open>The value \<^verbatim>\<open>Key::operator==\<close> returns.\<close>

definition Key_eq ::
  "('s \<Rightarrow> 's \<Rightarrow> bool) \<Rightarrow> ('a \<Rightarrow> 'a \<Rightarrow> bool) \<Rightarrow> ('a, 's) Key \<Rightarrow> ('a, 's) Key \<Rightarrow> bool" where
  "Key_eq CGSizeEqualToSize attributes_eq k other = snd (Key_eq_trace CGSizeEqualToSize attributes_eq k other)"

text \<open>
  \<^verbatim>\<open>
  struct KeyHasher {
    size_t operator()(const Key &k) const { return k.hash; }
  };
  \<close>
\<close>

definition KeyHasher :: "('a, 's) Key \<Rightarrow> size_t" where
  "KeyHasher k = hash k"

section \<open>The notification centre and \<^verbatim>\<open>ApplicationObserver\<close>\<close>

text \<open>
  Addresses of heap objects. The notification centre of the platform keeps, for each
  registration, the observer pointer, the callback and the notification name.
\<close>

type_synonym addr = nat

datatype notification_name =
  UIApplicationDidReceiveMemoryWarningNotification | UIApplicationDidEnterBackgroundNotification

datatype callback = lowMemoryNotificationHandler | enteredBackgroundNotificationHandler

record registration =
  reg_observer :: addr
  reg_callBack :: callback
  reg_name :: notification_name

text \<open>
  The part of the process state this header acts on: the registrations of the local
  notification centre (\<^verbatim>\<open>CFNotificationCenterGetLocalCenter()\<close>) and the addresses of the
  \<^verbatim>\<open>ApplicationObserver\<close> objects that are allocated and not yet deleted.
\<close>

record runtime =
  localCenter :: "registration list"
  live :: "addr list"

text \<open>
  The two platform calls, by their documentation: adding appends a registration; removing
  drops the registrations of that observer for that notification name.
\<close>

definition CFNotificationCenterAddObserver ::
  "addr \<Rightarrow> callback \<Rightarrow> notification_name \<Rightarrow> runtime \<Rightarrow> runtime" where
  "CFNotificationCenterAddObserver observer callBack name rt =
     rt\<lparr>localCenter := localCenter rt @ [\<lparr>reg_observer = observer, reg_callBack = callBack, reg_name = name\<rparr>]\<rparr>"

definition CFNotificationCenterRemoveObserver ::
  "addr \<Rightarrow> notification_name \<Rightarrow> runtime \<Rightarrow> runtime" where
  "CFNotificationCenterRemoveObserver observer name rt =
     rt\<lparr>localCenter := filter (\<lambda>r. reg_observer r \<noteq> observer \<or> reg_name r \<noteq> name) (localCenter rt)\<rparr>"

text \<open>
  \<^verbatim>\<open>
  ApplicationObserver(std::function<void (void)> lowMem, std::function<void (void)> bg) :
  onLowMemory(lowMem), onEnterBackground(bg) {
    CFNotificationCenterAddObserver(..., this, &lowMemoryNotificationHandler,
                                    UIApplicationDidReceiveMemoryWarningNotification, ...);
    CFNotificationCenterAddObserver(..., this, &enteredBackgroundNotificationHandler,
                                    UIApplicationDidEnterBackgroundNotification, ...);
  };
  \<close>
  The constructor with two arguments, run on the object at address \<open>this\<close>.
\<close>

definition ApplicationObserver_ctor :: "addr \<Rightarrow> runtime \<Rightarrow> runtime" where
  "ApplicationObserver_ctor this rt =
     CFNotificationCenterAddObserver this enteredBackgroundNotificationHandler UIApplicationDidEnterBackgroundNotification
       (CFNotificationCenterAddObserver this lowMemoryNotificationHandler UIApplicationDidReceiveMemoryWarningNotification rt)"

text \<open>
  \<^verbatim>\<open>
  ApplicationObserver() {
    CFNotificationCenterRemoveObserver(..., this, UIApplicationDidReceiveMemoryWarningNotification, NULL);
    CFNotificationCenterRemoveObserver(..., this, UIApplicationDidEnterBackgroundNotification, NULL);
  };
  \<close>
  As written in the header (lines 47 to 56) this member is a constructor without arguments,
  not a destructor: its name has no \<^verbatim>\<open>~\<close>. Nothing in the header calls it.
\<close>

definition ApplicationObserver_ctor_default :: "addr \<Rightarrow> runtime \<Rightarrow> runtime" where
  "ApplicationObserver_ctor_default this rt =
     CFNotificationCenterRemoveObserver this UIApplicationDidEnterBackgroundNotification
       (CFNotificationCenterRemoveObserver this UIApplicationDidReceiveMemoryWarningNotification rt)"

text \<open>
  The struct declares no destructor, so \<^verbatim>\<open>~ApplicationObserver\<close> is the one the compiler
  generates: it destroys the two \<^verbatim>\<open>std::function\<close> members and does nothing to the
  notification centre.
\<close>

definition ApplicationObserver_dtor :: "addr \<Rightarrow> runtime \<Rightarrow> runtime" where
  "ApplicationObserver_dtor this rt = rt"

text \<open>\<^verbatim>\<open>operator new\<close> returns a non-null address that is not in use.\<close>

definition operator_new :: "runtime \<Rightarrow> addr" where
  "operator_new rt = Suc (fold max (live rt) 0)"

text \<open>The registrations whose observer pointer is not the address of a live object.\<close>

definition dangling :: "runtime \<Rightarrow> registration list" where
  "dangling rt = filter (\<lambda>r. reg_observer r \<notin> set (live rt)) (localCenter rt)"

section \<open>The cache engine behind the facade\<close>

text \<open>How an operation of the engine can fail: a contract violation that stops the program.\<close>

datatype error = ContractViolation

text \<open>
  \<^verbatim>\<open>CK::ConcurrentCacheImpl<const Key, id, KeyHasher>\<close> is declared in \<^verbatim>\<open>CKCacheImpl.h\<close>.
  The facade uses its constructor and four member functions; they are the fields of this
  record, over a state \<open>'e\<close> of the engine. The compaction factors are of type
  \<^verbatim>\<open>double\<close> or \<^verbatim>\<open>CGFloat\<close> in the source and real numbers here.
\<close>

record ('e, 'k, 'v) ConcurrentCacheImpl =
  impl_ctor :: "string \<Rightarrow> nat \<Rightarrow> real \<Rightarrow> 'e"
  impl_insert :: "'k \<Rightarrow> 'v \<Rightarrow> size_t \<Rightarrow> 'e \<Rightarrow> error + 'e"
  impl_find :: "'k \<Rightarrow> 'e \<Rightarrow> 'v option \<times> 'e"
  impl_compact :: "real \<Rightarrow> 'e \<Rightarrow> error + 'e"
  impl_removeAllObjects :: "'e \<Rightarrow> 'e"

text \<open>
  An engine that only records the calls it receives, in order: its state is the list of
  calls made on it so far.
\<close>

datatype ('k, 'v) call =
  CallInsert 'k 'v size_t | CallFind 'k | CallCompact real | CallRemoveAllObjects

definition recording :: "(('k, 'v) call list, 'k, 'v) ConcurrentCacheImpl" where
  "recording =
     \<lparr>impl_ctor = (\<lambda>cacheName maxCost compactionFactor. []),
      impl_insert = (\<lambda>key object cost calls. Inr (calls @ [CallInsert key object cost])),
      impl_find = (\<lambda>key calls. (None, calls @ [CallFind key])),
      impl_compact = (\<lambda>compactionFactor calls. Inr (calls @ [CallCompact compactionFactor])),
      impl_removeAllObjects = (\<lambda>calls. calls @ [CallRemoveAllObjects])\<rparr>"

section \<open>\<^verbatim>\<open>struct Cache\<close>: the facade\<close>

record 'e Cache =
  cache :: 'e
  applicationObserver :: addr

text \<open>
  \<^verbatim>\<open>void cacheObject(const Key &key, id object, size_t cost) { cache.insert(key, object, cost); }\<close>
\<close>

definition cacheObject ::
  "('e, 'k, 'v) ConcurrentCacheImpl \<Rightarrow> 'k \<Rightarrow> 'v \<Rightarrow> size_t \<Rightarrow> 'e Cache \<Rightarrow> error + 'e Cache" where
  "cacheObject E key object cost c =
     (case impl_insert E key object cost (cache c) of
        Inl err \<Rightarrow> Inl err
      | Inr e \<Rightarrow> Inr (c\<lparr>cache := e\<rparr>))"

text \<open>\<^verbatim>\<open>id objectForKey(const Key &key) { return cache.find(key); }\<close>\<close>

definition objectForKey ::
  "('e, 'k, 'v) ConcurrentCacheImpl \<Rightarrow> 'k \<Rightarrow> 'e Cache \<Rightarrow> 'v option \<times> 'e Cache" where
  "objectForKey E key c =
     (case impl_find E key (cache c) of (found, e) \<Rightarrow> (found, c\<lparr>cache := e\<rparr>))"

text \<open>\<^verbatim>\<open>void compact(double compactionFactor) { cache.compact(compactionFactor); }\<close>\<close>

definition compact ::
  "('e, 'k, 'v) ConcurrentCacheImpl \<Rightarrow> real \<Rightarrow> 'e Cache \<Rightarrow> error + 'e Cache" where
  "compact E compactionFactor c =
     (case impl_compact E compactionFactor (cache c) of
        Inl err \<Rightarrow> Inl err
      | Inr e \<Rightarrow> Inr (c\<lparr>cache := e\<rparr>))"

text \<open>\<^verbatim>\<open>void removeAllObjects() { cache.removeAllObjects(); }\<close>\<close>

definition removeAllObjects :: "('e, 'k, 'v) ConcurrentCacheImpl \<Rightarrow> 'e Cache \<Rightarrow> 'e Cache" where
  "removeAllObjects E c = c\<lparr>cache := impl_removeAllObjects E (cache c)\<rparr>"

text \<open>
  The two closures that the constructor of \<^verbatim>\<open>Cache\<close> hands to the observer, each capturing
  \<^verbatim>\<open>this\<close>: \<^verbatim>\<open>[this] { compact(0.95); }\<close> is stored as \<^verbatim>\<open>onLowMemory\<close> and
  \<^verbatim>\<open>[this] { removeAllObjects(); }\<close> as \<^verbatim>\<open>onEnterBackground\<close>.
\<close>

definition onLowMemory :: "('e, 'k, 'v) ConcurrentCacheImpl \<Rightarrow> 'e Cache \<Rightarrow> error + 'e Cache" where
  "onLowMemory E this = compact E 0.95 this"

definition onEnterBackground :: "('e, 'k, 'v) ConcurrentCacheImpl \<Rightarrow> 'e Cache \<Rightarrow> 'e Cache" where
  "onEnterBackground E this = removeAllObjects E this"

text \<open>
  \<^verbatim>\<open>
  Cache(const std::string cacheName, const NSUInteger maxCost, const CGFloat compactionFactor)
  : cache(cacheName, maxCost, compactionFactor) {
    applicationObserver = new ApplicationObserver([this] { compact(0.95); }, [this] { removeAllObjects(); });
  };
  \<close>
\<close>

definition Cache_ctor ::
  "('e, 'k, 'v) ConcurrentCacheImpl \<Rightarrow> string \<Rightarrow> nat \<Rightarrow> real \<Rightarrow> runtime \<Rightarrow> 'e Cache \<times> runtime" where
  "Cache_ctor E cacheName maxCost compactionFactor rt =
     (let p = operator_new rt in
        (\<lparr>cache = impl_ctor E cacheName maxCost compactionFactor, applicationObserver = p\<rparr>,
         ApplicationObserver_ctor p (rt\<lparr>live := p # live rt\<rparr>)))"

text \<open>
  \<^verbatim>\<open>~Cache() { delete applicationObserver; }\<close>
  The delete expression runs the destructor of the observer and then frees its memory.
\<close>

definition Cache_dtor :: "'e Cache \<Rightarrow> runtime \<Rightarrow> runtime" where
  "Cache_dtor c rt =
     (let rt' = ApplicationObserver_dtor (applicationObserver c) rt in
        rt'\<lparr>live := removeAll (applicationObserver c) (live rt')\<rparr>)"

section \<open>The engine, from its contract\<close>

text \<open>
  Modelled from the spec: \<^verbatim>\<open>CKCacheImpl.h\<close>, which declares \<^verbatim>\<open>CK::ConcurrentCacheImpl\<close>, is
  not among the sources. \<open>Entry\<close>, \<open>CacheStore\<close> and the operations on them follow the
  specification of the engine (Entry and CacheStore of the data model, and the contract
  of \<open>insert\<close>, \<open>find\<close>, \<open>compact\<close> and \<open>removeAllObjects\<close>). An entry has its key, its
  payload, its cost and its recency token. Costs are integers, so that the negative cost
  the contract excludes can be passed.
\<close>

record ('k, 'v) Entry =
  key :: 'k
  payload :: 'v
  cost :: int
  recency :: nat

text \<open>
  Modelled from the spec: the store of \<^verbatim>\<open>CKCacheImpl.h\<close>. \<open>entries\<close> is the recency-ordered
  structure, the least recently used entry first; \<open>totalCost\<close> is the running total;
  \<open>maxCost\<close> and \<open>compactionFactor\<close> are fixed at construction; \<open>clock\<close> is the next
  recency token, so that a token handed out later is "more recent". The cache name is
  used for diagnostics only and is not kept.
\<close>

record ('k, 'v) CacheStore =
  entries :: "('k, 'v) Entry list"
  totalCost :: int
  maxCost :: nat
  compactionFactor :: real
  clock :: nat

definition CacheStore_ctor :: "string \<Rightarrow> nat \<Rightarrow> real \<Rightarrow> ('k, 'v) CacheStore" where
  "CacheStore_ctor cacheName m f =
     \<lparr>entries = [], totalCost = 0, maxCost = m, compactionFactor = f, clock = 0\<rparr>"

text \<open>
  Modelled from the spec: the eviction pass of \<^verbatim>\<open>CKCacheImpl.h\<close>. It "repeatedly removes
  the current least-recently-used entry and subtracts its cost from the running total
  until the target threshold is met", or until no more than \<open>keep\<close> entries remain
  (\<open>keep\<close> is 1 for the pass of an insert, which stops when "only the just-inserted entry
  remains", and 0 for a compaction).
\<close>

fun evict :: "real \<Rightarrow> nat \<Rightarrow> ('k, 'v) Entry list \<Rightarrow> int \<Rightarrow> ('k, 'v) Entry list \<times> int" where
  "evict target keep [] running = ([], running)"
| "evict target keep (e # es) running =
     (if real_of_int running \<le> target \<or> length (e # es) \<le> keep then (e # es, running)
      else evict target keep es (running - cost e))"

text \<open>
  Modelled from the spec: \<open>insert\<close> of \<^verbatim>\<open>CKCacheImpl.h\<close>. A negative cost is a contract
  violation. Otherwise the entry for the key is inserted or replaced ("frees the old
  payload's cost accounting and adopts the new cost and recency"), the total is updated,
  and "if total cost now exceeds maxCost" the eviction pass runs with the target
  \<open>maxCost * compactionFactor\<close>.
\<close>

definition CacheStore_insert ::
  "'k \<Rightarrow> 'v \<Rightarrow> int \<Rightarrow> ('k, 'v) CacheStore \<Rightarrow> error + ('k, 'v) CacheStore" where
  "CacheStore_insert k v c s =
     (if c < 0 then Inl ContractViolation
      else
        let replaced = filter (\<lambda>e. key e = k) (entries s);
            others = filter (\<lambda>e. key e \<noteq> k) (entries s);
            inserted = \<lparr>key = k, payload = v, cost = c, recency = clock s\<rparr>;
            running = totalCost s - sum_list (map cost replaced) + c;
            s' = s\<lparr>entries := others @ [inserted], totalCost := running, clock := Suc (clock s)\<rparr>
        in if int (maxCost s) < running then
             (case evict (real (maxCost s) * compactionFactor s) 1 (entries s') running of
                (es, t) \<Rightarrow> Inr (s'\<lparr>entries := es, totalCost := t\<rparr>))
           else Inr s')"

text \<open>
  Modelled from the spec: \<open>find\<close> of \<^verbatim>\<open>CKCacheImpl.h\<close>. A hit makes the entry the most recent
  one and returns its payload; a miss returns nothing and has no side effect.
\<close>

definition CacheStore_find :: "'k \<Rightarrow> ('k, 'v) CacheStore \<Rightarrow> 'v option \<times> ('k, 'v) CacheStore" where
  "CacheStore_find k s =
     (case filter (\<lambda>e. key e = k) (entries s) of
        [] \<Rightarrow> (None, s)
      | e # _ \<Rightarrow>
          (Some (payload e),
           s\<lparr>entries := filter (\<lambda>e. key e \<noteq> k) (entries s) @ [e\<lparr>recency := clock s\<rparr>],
             clock := Suc (clock s)\<rparr>))"

text \<open>
  Modelled from the spec: \<open>compact\<close> of \<^verbatim>\<open>CKCacheImpl.h\<close>. A factor outside (0,1] is a
  contract violation. Otherwise it "evicts least-recently-used entries until total cost
  \<le> maxCost * factor".
\<close>

definition CacheStore_compact :: "real \<Rightarrow> ('k, 'v) CacheStore \<Rightarrow> error + ('k, 'v) CacheStore" where
  "CacheStore_compact factor s =
     (if 0 < factor \<and> factor \<le> 1 then
        (case evict (real (maxCost s) * factor) 0 (entries s) (totalCost s) of
           (es, t) \<Rightarrow> Inr (s\<lparr>entries := es, totalCost := t\<rparr>))
      else Inl ContractViolation)"

text \<open>
  Modelled from the spec: \<open>removeAllObjects\<close> of \<^verbatim>\<open>CKCacheImpl.h\<close>. It "drops every Entry,
  resets total cost to zero".
\<close>

definition CacheStore_removeAllObjects :: "('k, 'v) CacheStore \<Rightarrow> ('k, 'v) CacheStore" where
  "CacheStore_removeAllObjects s = s\<lparr>entries := [], totalCost := 0\<rparr>"

text \<open>
  The specified engine as the engine of the facade. The facade passes a \<^verbatim>\<open>size_t\<close> cost,
  which is never negative.
\<close>

definition CacheStore_impl :: "(('k, 'v) CacheStore, 'k, 'v) ConcurrentCacheImpl" where
  "CacheStore_impl =
     \<lparr>impl_ctor = CacheStore_ctor,
      impl_insert = (\<lambda>k v n. CacheStore_insert k v (int n)),
      impl_find = CacheStore_find,
      impl_compact = CacheStore_compact,
      impl_removeAllObjects = CacheStore_removeAllObjects\<rparr>"

text \<open>Sequences of operations on the store; a contract violation stops the sequence.\<close>

datatype ('k, 'v) operation = Insert 'k 'v int | Find 'k | Compact real | RemoveAllObjects

fun apply_operation :: "('k, 'v) operation \<Rightarrow> ('k, 'v) CacheStore \<Rightarrow> error + ('k, 'v) CacheStore" where
  "apply_operation (Insert k v c) s = CacheStore_insert k v c s"
| "apply_operation (Find k) s = Inr (snd (CacheStore_find k s))"
| "apply_operation (Compact f) s = CacheStore_compact f s"
| "apply_operation RemoveAllObjects s = Inr (CacheStore_removeAllObjects s)"

fun run :: "('k, 'v) operation list \<Rightarrow> ('k, 'v) CacheStore \<Rightarrow> error + ('k, 'v) CacheStore" where
  "run [] s = Inr s"
| "run (x # xs) s = (case apply_operation x s of Inl err \<Rightarrow> Inl err | Inr s' \<Rightarrow> run xs s')"

text \<open>
  What holds of every store between operations: the running total is the sum of the
  costs of the entries, no cost is negative, no key occurs twice, and the recency tokens
  increase strictly along the recency order and lie below the clock.
\<close>

definition store_inv :: "('k, 'v) CacheStore \<Rightarrow> bool" where
  "store_inv s \<longleftrightarrow>
     totalCost s = sum_list (map cost (entries s))
     \<and> (\<forall>e \<in> set (entries s). 0 \<le> cost e)
     \<and> distinct (map key (entries s))
     \<and> sorted_wrt (<) (map recency (entries s))
     \<and> (\<forall>e \<in> set (entries s). recency e < clock s)"

text \<open>The part of \<open>store_inv\<close> that concerns the list of entries, below a clock value.\<close>

definition entries_inv :: "nat \<Rightarrow> ('k, 'v) Entry list \<Rightarrow> bool" where
  "entries_inv c es \<longleftrightarrow>
     (\<forall>e \<in> set es. 0 \<le> cost e) \<and> distinct (map key es)
     \<and> sorted_wrt (<) (map recency es) \<and> (\<forall>e \<in> set es. recency e < c)"

text \<open>
  The cost bound: the running total is at most \<open>maxCost\<close>, or at most one entry is
  stored.
\<close>

definition cost_bounded :: "('k, 'v) CacheStore \<Rightarrow> bool" where
  "cost_bounded s \<longleftrightarrow> totalCost s \<le> int (maxCost s) \<or> length (entries s) \<le> 1"

section \<open>The facade and its lifecycle hooks\<close>

text \<open>
  The destructor of \<^verbatim>\<open>Cache\<close> leaves the notification centre as it was, whatever the
  process state; the body of the member at lines 47 to 56, had it run on the observer
  of a freshly constructed cache, would have removed both registrations.
\<close>

lemma Cache_dtor_localCenter: "localCenter (Cache_dtor c rt) = localCenter rt"
  by (simp add: Cache_dtor_def ApplicationObserver_dtor_def)

lemma ApplicationObserver_ctor_default_deregisters:
  "(case Cache_ctor E cacheName m f \<lparr>localCenter = [], live = []\<rparr> of
      (c, rt) \<Rightarrow> localCenter (ApplicationObserver_ctor_default (applicationObserver c) rt) = [])"
  by (simp add: Cache_ctor_def operator_new_def ApplicationObserver_ctor_def
      ApplicationObserver_ctor_default_def CFNotificationCenterAddObserver_def
      CFNotificationCenterRemoveObserver_def)

text \<open>
  Claim C1. Destroying a \<^verbatim>\<open>Cache\<close> should remove both registrations of its observer from
  the notification centre before the observer is freed. Evaluated on the code: a cache
  is constructed in a process with no registration and no observer, then destroyed. The
  observer is freed, and both of its registrations are still in the centre, pointing at
  the freed address.
\<close>

theorem Cache_dtor_leaves_hooks_registered:
  "(case Cache_ctor E cacheName m f \<lparr>localCenter = [], live = []\<rparr> of
      (c, rt) \<Rightarrow>
        applicationObserver c = 1
        \<and> live rt = [1]
        \<and> live (Cache_dtor c rt) = []
        \<and> localCenter (Cache_dtor c rt) =
            [\<lparr>reg_observer = 1, reg_callBack = lowMemoryNotificationHandler,
              reg_name = UIApplicationDidReceiveMemoryWarningNotification\<rparr>,
             \<lparr>reg_observer = 1, reg_callBack = enteredBackgroundNotificationHandler,
              reg_name = UIApplicationDidEnterBackgroundNotification\<rparr>]
        \<and> dangling (Cache_dtor c rt) = localCenter (Cache_dtor c rt))"
  by (simp add: Cache_ctor_def Cache_dtor_def operator_new_def ApplicationObserver_ctor_def
      ApplicationObserver_dtor_def CFNotificationCenterAddObserver_def dangling_def)

text \<open>
  Claim C3. The memory-pressure hook of a cache makes exactly one call, to \<^verbatim>\<open>compact\<close> of that
  same cache, with the factor 0.95, which lies in (0,1], and does nothing else: whatever
  the engine, the hook is \<^verbatim>\<open>compact(0.95)\<close>; the engine that records its calls receives the
  single call \<^verbatim>\<open>compact(0.95)\<close> after the calls it had received before, and the observer
  pointer of the cache is unchanged.
\<close>

theorem onLowMemory_is_one_compact:
  "onLowMemory E c = compact E 0.95 c
   \<and> (0::real) < 0.95 \<and> (0.95::real) \<le> 1
   \<and> onLowMemory recording r = Inr (r\<lparr>cache := cache r @ [CallCompact 0.95]\<rparr>)"
  by (simp add: onLowMemory_def compact_def recording_def)

text \<open>
  Claim C5. Each public operation of the facade is the operation of the engine on the
  \<^verbatim>\<open>cache\<close> member and nothing more: the engine state after \<^verbatim>\<open>cacheObject\<close>, \<^verbatim>\<open>compact\<close> and
  \<^verbatim>\<open>removeAllObjects\<close> is the one the engine's \<^verbatim>\<open>insert\<close>, \<^verbatim>\<open>compact\<close> and
  \<^verbatim>\<open>removeAllObjects\<close> produce (with the same failure, if the engine fails), \<^verbatim>\<open>objectForKey\<close>
  returns what the engine's \<^verbatim>\<open>find\<close> returns and leaves the engine state \<^verbatim>\<open>find\<close> leaves,
  and no operation changes the observer pointer.
\<close>

theorem Cache_operations_delegate:
  "map_sum id cache (cacheObject E k v n c) = impl_insert E k v n (cache c)
   \<and> map_sum id applicationObserver (cacheObject E k v n c)
       = map_sum id (\<lambda>_. applicationObserver c) (impl_insert E k v n (cache c))
   \<and> map_prod id cache (objectForKey E k c) = impl_find E k (cache c)
   \<and> applicationObserver (snd (objectForKey E k c)) = applicationObserver c
   \<and> map_sum id cache (compact E f c) = impl_compact E f (cache c)
   \<and> map_sum id applicationObserver (compact E f c)
       = map_sum id (\<lambda>_. applicationObserver c) (impl_compact E f (cache c))
   \<and> cache (removeAllObjects E c) = impl_removeAllObjects E (cache c)
   \<and> applicationObserver (removeAllObjects E c) = applicationObserver c"
  by (simp add: cacheObject_def objectForKey_def compact_def removeAllObjects_def
      split: sum.split prod.split)

section \<open>Key equality and hashing\<close>

lemma Key_eq_iff:
  "Key_eq szeq ateq k1 k2 =
     (hash k1 = hash k2 \<and> szeq (constrainedSize k1) (constrainedSize k2)
      \<and> ateq (attributes k1) (attributes k2) \<and> userInterfaceStyle k1 = userInterfaceStyle k2)"
  by (simp add: Key_eq_def Key_eq_trace_def and_also_def)

text \<open>
  Claim C2. \<^verbatim>\<open>Key::operator==\<close> returns true exactly when the hashes, the constrained sizes,
  the attributes and the user-interface styles of the two keys are all equal (sizes and
  attributes by their own comparison functions), and it compares in this order, stopping
  at the first comparison that fails: hash, then size, then attributes, then style.
\<close>

theorem Key_eq_ordered_short_circuit:
  "Key_eq szeq ateq k1 k2 =
     (hash k1 = hash k2 \<and> szeq (constrainedSize k1) (constrainedSize k2)
      \<and> ateq (attributes k1) (attributes k2) \<and> userInterfaceStyle k1 = userInterfaceStyle k2)
   \<and> fst (Key_eq_trace szeq ateq k1 k2) =
     (if hash k1 = hash k2 then
        if szeq (constrainedSize k1) (constrainedSize k2) then
          if ateq (attributes k1) (attributes k2) then
            [CompareHash, CompareConstrainedSize, CompareAttributes, CompareUserInterfaceStyle]
          else [CompareHash, CompareConstrainedSize, CompareAttributes]
        else [CompareHash, CompareConstrainedSize]
      else [CompareHash])"
  by (simp add: Key_eq_def Key_eq_trace_def and_also_def)

text \<open>
  Claim C10. \<^verbatim>\<open>KeyHasher\<close> returns the stored hash field of the key, without recomputing
  anything, and two keys that \<^verbatim>\<open>operator==\<close> finds equal have the same \<^verbatim>\<open>KeyHasher\<close> value.
\<close>

theorem KeyHasher_consistent:
  "KeyHasher k = hash k
   \<and> (Key_eq szeq ateq k1 k2 \<longrightarrow> KeyHasher k1 = KeyHasher k2)"
  by (simp add: KeyHasher_def Key_eq_iff)

theorem KeyHasher_consistent_witness:
  "Key_eq (=) (=)
     \<lparr>userInterfaceStyle = UIUserInterfaceStyleDark, attributes = ''Like'', constrainedSize = (100::nat, 20::nat), hash = 77\<rparr>
     \<lparr>userInterfaceStyle = UIUserInterfaceStyleDark, attributes = ''Like'', constrainedSize = (100, 20), hash = 77\<rparr>
   \<and> KeyHasher \<lparr>userInterfaceStyle = UIUserInterfaceStyleDark, attributes = ''Like'', constrainedSize = (100::nat, 20::nat), hash = 77\<rparr>
     = KeyHasher \<lparr>userInterfaceStyle = UIUserInterfaceStyleDark, attributes = ''Like'', constrainedSize = (100::nat, 20::nat), hash = 77\<rparr>
   \<and> KeyHasher \<lparr>userInterfaceStyle = UIUserInterfaceStyleDark, attributes = ''Like'', constrainedSize = (100::nat, 20::nat), hash = 77\<rparr> = 77"
  using KeyHasher_consistent
    [of "\<lparr>userInterfaceStyle = UIUserInterfaceStyleDark, attributes = ''Like'', constrainedSize = (100::nat, 20::nat), hash = 77\<rparr>"
        "(=)" "(=)"
        "\<lparr>userInterfaceStyle = UIUserInterfaceStyleDark, attributes = ''Like'', constrainedSize = (100::nat, 20::nat), hash = 77\<rparr>"
        "\<lparr>userInterfaceStyle = UIUserInterfaceStyleDark, attributes = ''Like'', constrainedSize = (100::nat, 20::nat), hash = 77\<rparr>"]
  by (simp add: Key_eq_iff)

section \<open>The engine: invariants and eviction\<close>

lemma evict_drop:
  "\<exists>n. evict t k es r = (drop n es, r - sum_list (map cost (take n es)))"
proof (induction es arbitrary: r)
  case Nil
  show ?case by simp
next
  case (Cons e es)
  show ?case
  proof (cases "real_of_int r \<le> t \<or> length (e # es) \<le> k")
    case True
    then have "evict t k (e # es) r = (drop 0 (e # es), r - sum_list (map cost (take 0 (e # es))))"
      by simp
    then show ?thesis by blast
  next
    case False
    from Cons.IH [of "r - cost e"] obtain n where
      "evict t k es (r - cost e) = (drop n es, r - cost e - sum_list (map cost (take n es)))"
      by blast
    with False have "evict t k (e # es) r = (drop (Suc n) (e # es), r - sum_list (map cost (take (Suc n) (e # es))))"
      by (simp add: algebra_simps)
    then show ?thesis by blast
  qed
qed

lemma evict_stop:
  "evict t k es r = (es', r') \<Longrightarrow> real_of_int r' \<le> t \<or> length es' \<le> k"
  by (induction es arbitrary: r) (auto split: if_splits)

lemma sum_cost_split:
  "sum_list (map cost (take n es)) + sum_list (map cost (drop n es)) = sum_list (map cost es)"
  by (metis append_take_drop_id map_append sum_list_append)

lemma sum_cost_filter:
  "sum_list (map cost (filter P es)) + sum_list (map cost (filter (\<lambda>e. \<not> P e) es)) = sum_list (map cost es)"
  by (induction es) auto

lemma sum_cost_nonneg:
  "(\<forall>e \<in> set es. 0 \<le> cost e) \<Longrightarrow> 0 \<le> sum_list (map cost es)"
  by (induction es) auto

lemma store_inv_alt:
  "store_inv s \<longleftrightarrow> totalCost s = sum_list (map cost (entries s)) \<and> entries_inv (clock s) (entries s)"
  by (auto simp: store_inv_def entries_inv_def)

lemma entries_inv_drop: "entries_inv c es \<Longrightarrow> entries_inv c (drop n es)"
  unfolding entries_inv_def
  by (auto simp: drop_map [symmetric] sorted_wrt_drop dest: in_set_dropD distinct_drop)

lemma entries_inv_filter: "entries_inv c es \<Longrightarrow> entries_inv c (filter P es)"
  unfolding entries_inv_def
  by (auto simp: distinct_map_filter sorted_wrt_map sorted_wrt_filter)

lemma entries_inv_snoc:
  "entries_inv c es \<Longrightarrow> 0 \<le> cost e \<Longrightarrow> key e \<notin> key ` set es \<Longrightarrow> recency e = c
   \<Longrightarrow> entries_inv (Suc c) (es @ [e])"
  unfolding entries_inv_def
  by (auto simp: sorted_wrt_append less_Suc_eq)


lemma store_inv_ctor: "store_inv (CacheStore_ctor name m f)"
  by (simp add: store_inv_def CacheStore_ctor_def)

lemma store_inv_removeAllObjects: "store_inv (CacheStore_removeAllObjects s)"
  by (simp add: store_inv_def CacheStore_removeAllObjects_def)

lemma store_inv_compact:
  assumes "store_inv s" "CacheStore_compact f s = Inr s'"
  shows "store_inv s'"
proof -
  obtain n where n: "evict (real (maxCost s) * f) 0 (entries s) (totalCost s)
      = (drop n (entries s), totalCost s - sum_list (map cost (take n (entries s))))"
    using evict_drop by blast
  with assms(2) have s': "s' = s\<lparr>entries := drop n (entries s),
      totalCost := totalCost s - sum_list (map cost (take n (entries s)))\<rparr>"
    by (auto simp: CacheStore_compact_def split: if_splits)
  have "totalCost s = sum_list (map cost (entries s))" "entries_inv (clock s) (entries s)"
    using assms(1) by (simp_all add: store_inv_alt)
  then show ?thesis
    using sum_cost_split [of n "entries s"]
    by (simp add: store_inv_alt s' entries_inv_drop)
qed

lemma store_inv_find:
  assumes "store_inv s"
  shows "store_inv (snd (CacheStore_find k s))"
proof (cases "filter (\<lambda>e. key e = k) (entries s)")
  case Nil
  then show ?thesis using assms by (simp add: CacheStore_find_def)
next
  case (Cons e rest)
  have inv: "totalCost s = sum_list (map cost (entries s))" "entries_inv (clock s) (entries s)"
    using assms by (simp_all add: store_inv_alt)
  have "e \<in> set (filter (\<lambda>e. key e = k) (entries s))"
    using Cons by simp
  then have e: "e \<in> set (entries s)" "key e = k"
    by simp_all
  have rest: "rest = []"
  proof (cases rest)
    case Nil
    then show ?thesis .
  next
    case (Cons a list)
    have "distinct (map key (filter (\<lambda>e. key e = k) (entries s)))"
      using inv(2) by (simp add: entries_inv_def distinct_map_filter)
    then have "key a \<noteq> key e"
      unfolding \<open>filter (\<lambda>e. key e = k) (entries s) = e # rest\<close> Cons by auto
    moreover have "a \<in> set (filter (\<lambda>e. key e = k) (entries s))"
      unfolding \<open>filter (\<lambda>e. key e = k) (entries s) = e # rest\<close> Cons by simp
    ultimately show ?thesis using e(2) by simp
  qed
  have others: "entries_inv (clock s) (filter (\<lambda>e. key e \<noteq> k) (entries s))"
    using inv(2) by (rule entries_inv_filter)
  have "0 \<le> cost e" using e(1) inv(2) by (simp add: entries_inv_def)
  then have "entries_inv (Suc (clock s)) (filter (\<lambda>e. key e \<noteq> k) (entries s) @ [e\<lparr>recency := clock s\<rparr>])"
    using others e(2) by (intro entries_inv_snoc) auto
  moreover have "sum_list (map cost (filter (\<lambda>e. key e \<noteq> k) (entries s))) + cost e
      = sum_list (map cost (entries s))"
    using sum_cost_filter [of "\<lambda>e. key e = k" "entries s"] Cons rest by simp
  ultimately show ?thesis
    using inv(1) Cons by (simp add: CacheStore_find_def store_inv_alt)
qed


lemma CacheStore_insert_Inr:
  assumes "CacheStore_insert k v c s = Inr s'"
  shows "0 \<le> c"
    and "\<exists>n. s' = s\<lparr>entries := drop n (filter (\<lambda>e. key e \<noteq> k) (entries s)
                    @ [\<lparr>key = k, payload = v, cost = c, recency = clock s\<rparr>]),
                  totalCost := totalCost s - sum_list (map cost (filter (\<lambda>e. key e = k) (entries s))) + c
                    - sum_list (map cost (take n (filter (\<lambda>e. key e \<noteq> k) (entries s)
                        @ [\<lparr>key = k, payload = v, cost = c, recency = clock s\<rparr>]))),
                  clock := Suc (clock s)\<rparr>"
proof -
  show c: "0 \<le> c"
    using assms by (auto simp: CacheStore_insert_def split: if_splits)
  let ?es = "filter (\<lambda>e. key e \<noteq> k) (entries s) @ [\<lparr>key = k, payload = v, cost = c, recency = clock s\<rparr>]"
  let ?r = "totalCost s - sum_list (map cost (filter (\<lambda>e. key e = k) (entries s))) + c"
  let ?P = "\<lambda>n. s' = s\<lparr>entries := drop n ?es, totalCost := ?r - sum_list (map cost (take n ?es)),
      clock := Suc (clock s)\<rparr>"
  show "\<exists>n. ?P n"
  proof (cases "int (maxCost s) < ?r")
    case False
    with c assms have "?P 0"
      by (auto simp: CacheStore_insert_def Let_def)
    then show ?thesis by blast
  next
    case True
    obtain n where "evict (real (maxCost s) * compactionFactor s) 1 ?es ?r
        = (drop n ?es, ?r - sum_list (map cost (take n ?es)))"
      using evict_drop by blast
    with True c assms have "?P n"
      by (auto simp: CacheStore_insert_def Let_def)
    then show ?thesis by blast
  qed
qed

lemma store_inv_insert:
  assumes "store_inv s" "CacheStore_insert k v c s = Inr s'"
  shows "store_inv s'"
proof -
  let ?new = "\<lparr>key = k, payload = v, cost = c, recency = clock s\<rparr>"
  let ?es = "filter (\<lambda>e. key e \<noteq> k) (entries s) @ [?new]"
  let ?r = "totalCost s - sum_list (map cost (filter (\<lambda>e. key e = k) (entries s))) + c"
  from CacheStore_insert_Inr [OF assms(2)] obtain n where
    c: "0 \<le> c" and
    s': "s' = s\<lparr>entries := drop n ?es, totalCost := ?r - sum_list (map cost (take n ?es)),
      clock := Suc (clock s)\<rparr>"
    by blast
  have inv: "totalCost s = sum_list (map cost (entries s))" "entries_inv (clock s) (entries s)"
    using assms(1) by (simp_all add: store_inv_alt)
  have "entries_inv (clock s) (filter (\<lambda>e. key e \<noteq> k) (entries s))"
    using inv(2) by (rule entries_inv_filter)
  then have "entries_inv (Suc (clock s)) ?es"
    using c by (intro entries_inv_snoc) auto
  then have 1: "entries_inv (Suc (clock s)) (drop n ?es)"
    by (rule entries_inv_drop)
  have "?r = sum_list (map cost ?es)"
    using sum_cost_filter [of "\<lambda>e. key e = k" "entries s"] inv(1) by simp
  then have 2: "?r - sum_list (map cost (take n ?es)) = sum_list (map cost (drop n ?es))"
    using sum_cost_split [of n ?es] by linarith
  show ?thesis
    unfolding store_inv_alt s' using 1 2 by simp
qed

lemma store_inv_apply_operation:
  "store_inv s \<Longrightarrow> apply_operation x s = Inr s' \<Longrightarrow> store_inv s'"
  by (cases x) (auto intro: store_inv_insert store_inv_compact store_inv_find store_inv_removeAllObjects)

lemma store_inv_run:
  "store_inv s \<Longrightarrow> run xs s = Inr s' \<Longrightarrow> store_inv s'"
proof (induction xs arbitrary: s)
  case Nil
  then show ?case by simp
next
  case (Cons x xs)
  then show ?case
    by (auto split: sum.splits dest: store_inv_apply_operation)
qed


lemma CacheStore_compact_Inr:
  assumes "CacheStore_compact f s = Inr s'"
  shows "0 < f" "f \<le> 1"
    and "\<exists>n. s' = s\<lparr>entries := drop n (entries s),
                  totalCost := totalCost s - sum_list (map cost (take n (entries s)))\<rparr>"
    and "real_of_int (totalCost s') \<le> real (maxCost s) * f \<or> entries s' = []"
proof -
  show f: "0 < f" "f \<le> 1"
    using assms by (auto simp: CacheStore_compact_def split: if_splits)
  obtain n where n: "evict (real (maxCost s) * f) 0 (entries s) (totalCost s)
      = (drop n (entries s), totalCost s - sum_list (map cost (take n (entries s))))"
    using evict_drop by blast
  with assms f have s': "s' = s\<lparr>entries := drop n (entries s),
      totalCost := totalCost s - sum_list (map cost (take n (entries s)))\<rparr>"
    by (auto simp: CacheStore_compact_def)
  then show "\<exists>n. s' = s\<lparr>entries := drop n (entries s),
      totalCost := totalCost s - sum_list (map cost (take n (entries s)))\<rparr>"
    by blast
  from evict_stop [OF n] s'
  show "real_of_int (totalCost s') \<le> real (maxCost s) * f \<or> entries s' = []"
    by auto
qed

lemma params_apply_operation:
  assumes "apply_operation x s = Inr s'"
  shows "maxCost s' = maxCost s \<and> compactionFactor s' = compactionFactor s"
proof (cases x)
  case (Insert k v c)
  with assms CacheStore_insert_Inr(2) [of k v c s s'] show ?thesis by auto
next
  case (Find k)
  with assms show ?thesis
    by (auto simp: CacheStore_find_def split: list.splits)
next
  case (Compact f)
  with assms CacheStore_compact_Inr(3) [of f s s'] show ?thesis by auto
next
  case RemoveAllObjects
  with assms show ?thesis by (auto simp: CacheStore_removeAllObjects_def)
qed

lemma params_run:
  "run xs s = Inr s' \<Longrightarrow> maxCost s' = maxCost s \<and> compactionFactor s' = compactionFactor s"
proof (induction xs arbitrary: s)
  case Nil
  then show ?case by simp
next
  case (Cons x xs)
  then show ?case
    by (fastforce split: sum.splits dest: params_apply_operation)
qed

lemma cost_bounded_insert:
  assumes "compactionFactor s \<le> 1" "CacheStore_insert k v c s = Inr s'"
  shows "cost_bounded s'"
proof -
  let ?es = "filter (\<lambda>e. key e \<noteq> k) (entries s) @ [\<lparr>key = k, payload = v, cost = c, recency = clock s\<rparr>]"
  let ?r = "totalCost s - sum_list (map cost (filter (\<lambda>e. key e = k) (entries s))) + c"
  have c: "0 \<le> c" using assms(2) by (rule CacheStore_insert_Inr(1))
  show ?thesis
  proof (cases "int (maxCost s) < ?r")
    case False
    with c assms(2) show ?thesis
      by (auto simp: CacheStore_insert_def Let_def cost_bounded_def)
  next
    case True
    obtain es t where ev: "evict (real (maxCost s) * compactionFactor s) 1 ?es ?r = (es, t)"
      by (cases "evict (real (maxCost s) * compactionFactor s) 1 ?es ?r")
    with True c assms(2) have s': "entries s' = es" "totalCost s' = t" "maxCost s' = maxCost s"
      by (auto simp: CacheStore_insert_def Let_def)
    have "real (maxCost s) * compactionFactor s \<le> real (maxCost s)"
      using assms(1) by (simp add: mult_left_le)
    with evict_stop [OF ev] have "t \<le> int (maxCost s) \<or> length es \<le> 1"
      by auto
    then show ?thesis by (simp add: cost_bounded_def s')
  qed
qed

lemma cost_bounded_compact:
  assumes "store_inv s" "cost_bounded s" "CacheStore_compact f s = Inr s'"
  shows "cost_bounded s'"
proof -
  from CacheStore_compact_Inr(3) [OF assms(3)] obtain n where
    s': "s' = s\<lparr>entries := drop n (entries s),
      totalCost := totalCost s - sum_list (map cost (take n (entries s)))\<rparr>"
    by blast
  have "\<forall>e \<in> set (take n (entries s)). 0 \<le> cost e"
    using assms(1) by (auto simp: store_inv_def dest: in_set_takeD)
  then have "0 \<le> sum_list (map cost (take n (entries s)))"
    by (rule sum_cost_nonneg)
  then show ?thesis
    using assms(2) by (auto simp: cost_bounded_def s')
qed

lemma cost_bounded_find:
  assumes "cost_bounded s"
  shows "cost_bounded (snd (CacheStore_find k s))"
proof (cases "filter (\<lambda>e. key e = k) (entries s)")
  case Nil
  then show ?thesis using assms by (simp add: CacheStore_find_def)
next
  case (Cons e rest)
  have "length (filter (\<lambda>e. key e \<noteq> k) (entries s)) + length (e # rest) = length (entries s)"
    using sum_length_filter_compl [of "\<lambda>e. key e = k" "entries s"] Cons by simp
  then have less: "length (filter (\<lambda>e. key e \<noteq> k) (entries s)) < length (entries s)"
    by simp
  have "snd (CacheStore_find k s) =
      s\<lparr>entries := filter (\<lambda>e. key e \<noteq> k) (entries s) @ [e\<lparr>recency := clock s\<rparr>],
        clock := Suc (clock s)\<rparr>"
    using Cons by (simp add: CacheStore_find_def)
  then have found: "totalCost (snd (CacheStore_find k s)) = totalCost s"
    "maxCost (snd (CacheStore_find k s)) = maxCost s"
    "length (entries (snd (CacheStore_find k s))) \<le> length (entries s)"
    using less by simp_all
  from assms consider "totalCost s \<le> int (maxCost s)" | "length (entries s) \<le> 1"
    unfolding cost_bounded_def by blast
  then show ?thesis
  proof cases
    case 1
    then show ?thesis unfolding cost_bounded_def found(1,2) by blast
  next
    case 2
    with found(3) have "length (entries (snd (CacheStore_find k s))) \<le> 1"
      by (rule le_trans)
    then show ?thesis unfolding cost_bounded_def by blast
  qed
qed

lemma cost_bounded_apply_operation:
  assumes "compactionFactor s \<le> 1" "store_inv s" "cost_bounded s" "apply_operation x s = Inr s'"
  shows "cost_bounded s'"
proof (cases x)
  case (Insert k v c)
  with assms show ?thesis by (auto intro: cost_bounded_insert)
next
  case (Find k)
  with assms show ?thesis by (auto intro: cost_bounded_find)
next
  case (Compact f)
  with assms show ?thesis by (auto intro: cost_bounded_compact)
next
  case RemoveAllObjects
  with assms show ?thesis by (auto simp: CacheStore_removeAllObjects_def cost_bounded_def)
qed

lemma cost_bounded_run:
  "compactionFactor s \<le> 1 \<Longrightarrow> store_inv s \<Longrightarrow> cost_bounded s \<Longrightarrow> run xs s = Inr s'
   \<Longrightarrow> cost_bounded s'"
proof (induction xs arbitrary: s)
  case Nil
  then show ?case by simp
next
  case (Cons x xs)
  from Cons.prems(4) obtain s1 where s1: "apply_operation x s = Inr s1" "run xs s1 = Inr s'"
    by (auto split: sum.splits)
  have "compactionFactor s1 \<le> 1"
    using params_apply_operation [OF s1(1)] Cons.prems(1) by simp
  moreover have "store_inv s1"
    using Cons.prems(2) s1(1) by (rule store_inv_apply_operation)
  moreover have "cost_bounded s1"
    using Cons.prems(1-3) s1(1) by (rule cost_bounded_apply_operation)
  ultimately show ?case
    using s1(2) by (rule Cons.IH)
qed

text \<open>
  Claim C6. After any sequence of operations on a store constructed with a compaction
  factor of at most 1 (sequences of \<open>insert\<close> and \<open>compact\<close> in particular), whenever more
  than one entry is stored the sum of the costs of the stored entries is at most
  \<open>maxCost\<close>.
\<close>

theorem cost_invariant:
  assumes "f \<le> 1"
    and "run xs (CacheStore_ctor name m f) = Inr s"
    and "1 < length (entries s)"
  shows "sum_list (map cost (entries s)) \<le> int m"
proof -
  let ?s0 = "CacheStore_ctor name m f :: ('a, 'b) CacheStore"
  have 0: "compactionFactor ?s0 \<le> 1" "store_inv ?s0" "cost_bounded ?s0"
    using assms(1) by (simp_all add: CacheStore_ctor_def store_inv_def cost_bounded_def)
  have "cost_bounded s"
    using 0 assms(2) by (rule cost_bounded_run)
  moreover have "store_inv s"
    using 0(2) assms(2) by (rule store_inv_run)
  moreover have "maxCost s = m"
    using params_run [OF assms(2)] by (simp add: CacheStore_ctor_def)
  ultimately show ?thesis
    using assms(3) by (simp add: cost_bounded_def store_inv_def)
qed

lemmas engine_defs = CacheStore_insert_def CacheStore_find_def CacheStore_compact_def
  CacheStore_ctor_def CacheStore_removeAllObjects_def Let_def

theorem cost_invariant_witness:
  "(1::real) \<le> 1
   \<and> run [Insert (1::nat) ''a'' 40, Insert 2 ''b'' 40, Insert 3 ''c'' 40, Compact 1]
         (CacheStore_ctor ''renderers'' 100 1)
       = Inr \<lparr>entries = [\<lparr>key = 2, payload = ''b'', cost = 40, recency = 1\<rparr>,
                         \<lparr>key = 3, payload = ''c'', cost = 40, recency = 2\<rparr>],
              totalCost = 80, maxCost = 100, compactionFactor = 1, clock = 3\<rparr>
   \<and> 1 < length [\<lparr>key = 2::nat, payload = ''b'', cost = 40, recency = 1\<rparr>,
                  \<lparr>key = 3, payload = ''c'', cost = 40, recency = 2\<rparr>]
   \<and> sum_list (map cost [\<lparr>key = 2::nat, payload = ''b'', cost = 40, recency = 1\<rparr>,
                  \<lparr>key = 3, payload = ''c'', cost = 40, recency = 2\<rparr>]) \<le> int 100"
proof -
  have r: "run [Insert (1::nat) ''a'' 40, Insert 2 ''b'' 40, Insert 3 ''c'' 40, Compact 1]
         (CacheStore_ctor ''renderers'' 100 1)
       = Inr \<lparr>entries = [\<lparr>key = 2, payload = ''b'', cost = 40, recency = 1\<rparr>,
                         \<lparr>key = 3, payload = ''c'', cost = 40, recency = 2\<rparr>],
              totalCost = 80, maxCost = 100, compactionFactor = 1, clock = 3\<rparr>"
    by (simp add: engine_defs)
  have f: "(1::real) \<le> 1" by simp
  show ?thesis
    using cost_invariant [OF f r] r by simp
qed

text \<open>
  Claim C7, as amended. With \<open>maxCost = 100\<close> and a compaction factor between 0.8 and 1,
  inserting three distinct keys of cost 40 each into an empty store evicts exactly the
  first, least recently used one: the second and third remain, with total cost 80.
\<close>

theorem three_inserts_scenario:
  assumes "4 / 5 \<le> f" "f \<le> 1" "k1 \<noteq> k2" "k1 \<noteq> k3" "k2 \<noteq> k3"
  shows "run [Insert k1 v1 40, Insert k2 v2 40, Insert k3 v3 40] (CacheStore_ctor name 100 f)
     = Inr \<lparr>entries = [\<lparr>key = k2, payload = v2, cost = 40, recency = 1\<rparr>,
                       \<lparr>key = k3, payload = v3, cost = 40, recency = 2\<rparr>],
            totalCost = 80, maxCost = 100, compactionFactor = f, clock = 3\<rparr>"
  using assms by (simp add: engine_defs)

text \<open>
  Claim C7 as stated does not fix the compaction factor. With \<open>maxCost = 100\<close> and the
  compaction factor 0.5, the eviction pass of the third insert has the target 50: it
  evicts the first and the second key, and only the third remains, with total cost 40.
\<close>

theorem three_inserts_half_factor:
  "run [Insert (1::nat) ''a'' 40, Insert 2 ''b'' 40, Insert 3 ''c'' 40] (CacheStore_ctor ''renderers'' 100 (1 / 2))
     = Inr \<lparr>entries = [\<lparr>key = 3, payload = ''c'', cost = 40, recency = 2\<rparr>],
            totalCost = 40, maxCost = 100, compactionFactor = 1 / 2, clock = 3\<rparr>"
  by (simp add: engine_defs)

theorem three_inserts_scenario_witness:
  "(4 / 5 :: real) \<le> 9 / 10 \<and> (9 / 10 :: real) \<le> 1 \<and> (1::nat) \<noteq> 2 \<and> (1::nat) \<noteq> 3 \<and> (2::nat) \<noteq> 3
   \<and> run [Insert (1::nat) ''a'' 40, Insert 2 ''b'' 40, Insert 3 ''c'' 40] (CacheStore_ctor ''renderers'' 100 (9 / 10))
     = Inr \<lparr>entries = [\<lparr>key = 2, payload = ''b'', cost = 40, recency = 1\<rparr>,
                       \<lparr>key = 3, payload = ''c'', cost = 40, recency = 2\<rparr>],
            totalCost = 80, maxCost = 100, compactionFactor = 9 / 10, clock = 3\<rparr>"
proof -
  have h: "(4 / 5 :: real) \<le> 9 / 10" "(9 / 10 :: real) \<le> 1" "(1::nat) \<noteq> 2" "(1::nat) \<noteq> 3" "(2::nat) \<noteq> 3"
    by simp_all
  show ?thesis
    using three_inserts_scenario [OF h, where ?v1.0 = "''a''" and ?v2.0 = "''b''" and ?v3.0 = "''c''"
        and name = "''renderers''"] h
    by simp
qed

text \<open>
  Claim C4. The backgrounding hook of a cache makes exactly one call, to \<^verbatim>\<open>removeAllObjects\<close>
  of that same cache, and does nothing else: whatever the engine, the hook is
  \<^verbatim>\<open>removeAllObjects()\<close>; the engine that records its calls receives that single call;
  and on the specified engine every entry is dropped and the total cost is zero, the
  other fields of the store and the observer pointer being unchanged.
\<close>

theorem onEnterBackground_removes_all:
  "onEnterBackground E c = removeAllObjects E c
   \<and> onEnterBackground recording r = r\<lparr>cache := cache r @ [CallRemoveAllObjects]\<rparr>
   \<and> onEnterBackground CacheStore_impl d = d\<lparr>cache := (cache d)\<lparr>entries := [], totalCost := 0\<rparr>\<rparr>
   \<and> entries (cache (onEnterBackground CacheStore_impl d)) = []
   \<and> totalCost (cache (onEnterBackground CacheStore_impl d)) = 0"
  by (simp add: onEnterBackground_def removeAllObjects_def recording_def CacheStore_impl_def
      CacheStore_removeAllObjects_def)

lemma CacheStore_find_miss:
  "k \<notin> key ` set (entries s) \<Longrightarrow> CacheStore_find k s = (None, s)"
proof -
  assume "k \<notin> key ` set (entries s)"
  then have "filter (\<lambda>e. key e = k) (entries s) = []"
    by (auto simp: filter_empty_conv)
  then show ?thesis by (simp add: CacheStore_find_def)
qed

lemma CacheStore_insert_total:
  "0 \<le> c \<Longrightarrow> \<exists>s'. CacheStore_insert k v c s = Inr s'"
  by (simp add: CacheStore_insert_def Let_def split: prod.splits)

lemma CacheStore_compact_total:
  "0 < f \<Longrightarrow> f \<le> 1 \<Longrightarrow> \<exists>s'. CacheStore_compact f s = Inr s'"
  by (simp add: CacheStore_compact_def split: prod.splits)

text \<open>
  Claim C9. A negative cost passed to \<open>insert\<close> and a compaction factor outside (0,1]
  passed to \<open>compact\<close> are reported as contract violations; with a cost of at least 0
  \<open>insert\<close> succeeds, with a factor in (0,1] \<open>compact\<close> succeeds, and \<open>find\<close> of a key
  that is not stored returns the empty result and the unchanged store (\<open>find\<close> and
  \<open>removeAllObjects\<close> have no failing result at all). Through the facade, whose cost is a
  \<^verbatim>\<open>size_t\<close>, \<^verbatim>\<open>cacheObject\<close> and the memory-pressure hook always succeed.
\<close>

theorem contract_violations_fail_fast:
  "(c < 0 \<longrightarrow> CacheStore_insert k v c s = Inl ContractViolation)
   \<and> (\<not> (0 < f \<and> f \<le> 1) \<longrightarrow> CacheStore_compact f s = Inl ContractViolation)
   \<and> (0 \<le> c \<longrightarrow> (\<exists>s'. CacheStore_insert k v c s = Inr s'))
   \<and> (0 < f \<and> f \<le> 1 \<longrightarrow> (\<exists>s'. CacheStore_compact f s = Inr s'))
   \<and> (k \<notin> key ` set (entries s) \<longrightarrow> CacheStore_find k s = (None, s))
   \<and> (\<exists>d'. cacheObject CacheStore_impl k v n d = Inr d')
   \<and> (\<exists>d'. onLowMemory CacheStore_impl d = Inr d')"
proof -
  have "\<exists>s'. CacheStore_insert k v (int n) (cache d) = Inr s'"
    by (rule CacheStore_insert_total) simp
  then have 1: "\<exists>d'. cacheObject CacheStore_impl k v n d = Inr d'"
    by (auto simp: cacheObject_def CacheStore_impl_def)
  have "\<exists>s'. CacheStore_compact 0.95 (cache d) = Inr s'"
    by (rule CacheStore_compact_total) simp_all
  then have 2: "\<exists>d'. onLowMemory CacheStore_impl d = Inr d'"
    by (auto simp: onLowMemory_def compact_def CacheStore_impl_def)
  have 3: "c < 0 \<longrightarrow> CacheStore_insert k v c s = Inl ContractViolation"
    by (simp add: CacheStore_insert_def)
  have 4: "\<not> (0 < f \<and> f \<le> 1) \<longrightarrow> CacheStore_compact f s = Inl ContractViolation"
    by (simp add: CacheStore_compact_def)
  show ?thesis
    using 1 2 3 4 CacheStore_insert_total [of c k v s] CacheStore_compact_total [of f s]
      CacheStore_find_miss [of k s]
    by blast
qed

theorem contract_violations_fail_fast_witness:
  "(- 1 :: int) < 0
   \<and> CacheStore_insert (1::nat) ''a'' (- 1) (CacheStore_ctor ''renderers'' 100 1) = Inl ContractViolation
   \<and> \<not> (0 < (2::real) \<and> (2::real) \<le> 1)
   \<and> CacheStore_compact 2 (CacheStore_ctor ''renderers'' 100 1 :: (nat, string) CacheStore) = Inl ContractViolation
   \<and> (0::int) \<le> 40
   \<and> (\<exists>s'. CacheStore_insert (1::nat) ''a'' 40 (CacheStore_ctor ''renderers'' 100 1) = Inr s')
   \<and> (0 < (1 / 2 :: real) \<and> (1 / 2 :: real) \<le> 1)
   \<and> (\<exists>s'. CacheStore_compact (1 / 2) (CacheStore_ctor ''renderers'' 100 1 :: (nat, string) CacheStore) = Inr s')
   \<and> (1::nat) \<notin> key ` set (entries (CacheStore_ctor ''renderers'' 100 1 :: (nat, string) CacheStore))
   \<and> CacheStore_find (1::nat) (CacheStore_ctor ''renderers'' 100 1 :: (nat, string) CacheStore)
       = (None, CacheStore_ctor ''renderers'' 100 1)"
  using contract_violations_fail_fast [of "- 1" "1::nat" "''a''" "CacheStore_ctor ''renderers'' 100 1" 2]
    contract_violations_fail_fast [of 40 "1::nat" "''a''" "CacheStore_ctor ''renderers'' 100 1" "1 / 2"]
  by (simp add: CacheStore_ctor_def)


lemma recency_take_drop:
  assumes "sorted_wrt (<) (map recency es)" "e \<in> set (take n es)" "e' \<in> set (drop n es)"
  shows "recency e < recency e'"
proof -
  have "sorted_wrt (<) (map recency (take n es @ drop n es))"
    using assms(1) by simp
  then show ?thesis
    using assms(2,3) unfolding map_append sorted_wrt_append by auto
qed

lemma evicted_before_retained:
  assumes "sorted_wrt (<) (map recency es)" "e \<in> set es" "key e \<notin> key ` set (drop n es)"
    "e' \<in> set (drop n es)"
  shows "recency e < recency e'"
proof -
  have "set es = set (take n es) \<union> set (drop n es)"
    by (metis append_take_drop_id set_append)
  with assms(2,3) have "e \<in> set (take n es)" by auto
  with assms(1) show ?thesis using assms(4) by (rule recency_take_drop)
qed

lemma compact_evicts_least_recent:
  assumes "store_inv s" "CacheStore_compact f s = Inr s'"
    "e \<in> set (entries s)" "key e \<notin> key ` set (entries s')" "e' \<in> set (entries s')"
  shows "recency e < recency e'"
proof -
  from CacheStore_compact_Inr(3) [OF assms(2)] obtain n where
    "entries s' = drop n (entries s)" by auto
  moreover have "sorted_wrt (<) (map recency (entries s))"
    using assms(1) by (simp add: store_inv_def)
  ultimately show ?thesis
    using assms(3-5) by (auto intro: evicted_before_retained)
qed

lemma insert_evicts_least_recent:
  assumes "store_inv s" "CacheStore_insert k v c s = Inr s'"
    "e \<in> set (entries s)" "key e \<notin> key ` set (entries s')" "e' \<in> set (entries s')"
  shows "recency e < recency e'"
proof -
  let ?new = "\<lparr>key = k, payload = v, cost = c, recency = clock s\<rparr>"
  let ?es = "filter (\<lambda>e. key e \<noteq> k) (entries s) @ [?new]"
  from CacheStore_insert_Inr [OF assms(2)] obtain n where
    c: "0 \<le> c" and s': "entries s' = drop n ?es"
    by auto
  have "entries_inv (clock s) (filter (\<lambda>e. key e \<noteq> k) (entries s))"
    using assms(1) by (simp add: store_inv_alt entries_inv_filter)
  then have "entries_inv (Suc (clock s)) ?es"
    using c by (intro entries_inv_snoc) auto
  then have sorted: "sorted_wrt (<) (map recency ?es)"
    by (simp add: entries_inv_def)
  have "store_inv s'" using assms(1,2) by (rule store_inv_insert)
  have "?new \<in> set (entries s')"
  proof -
    have "entries s' \<noteq> []"
      using assms(5) by auto
    then have ne: "drop n ?es \<noteq> []"
      unfolding s' .
    then have "n < length ?es"
      by (metis drop_all not_le_imp_less)
    then have "last (drop n ?es) = last ?es"
      by (rule last_drop)
    then have "last (drop n ?es) = ?new"
      by (simp only: last_snoc)
    with ne show ?thesis
      unfolding s' by (metis last_in_set)
  qed
  then have "k \<in> key ` set (entries s')"
    by force
  with assms(4) have "key e \<noteq> k" by auto
  with assms(3) have "e \<in> set ?es" by simp
  with sorted show ?thesis
    using assms(4,5) unfolding s' by (rule evicted_before_retained)
qed

lemma recency_distinct:
  assumes "store_inv s"
  shows "distinct (map recency (entries s))"
proof -
  have "sorted_wrt (<) (map recency (entries s))"
    using assms by (simp add: store_inv_def)
  then show ?thesis
    using strict_sorted_iff by blast
qed

lemma lru_scenario:
  assumes "a \<noteq> b" "a \<noteq> c" "b \<noteq> c"
    and "run [Insert a va ca, Insert b vb cb, Insert c vc cc, Find a] (CacheStore_ctor name m cf) = Inr t"
    and "length (entries t) = 3"
    and "CacheStore_compact f t = Inr t'"
    and "length (entries t') = 2"
  shows "map key (entries t') = [c, a]"
proof -
  have "map key (entries t) = [b, c, a]"
    using assms(1-5)
    by (auto simp: engine_defs split: if_splits)
  moreover from CacheStore_compact_Inr(3) [OF assms(6)] obtain n where
    n: "entries t' = drop n (entries t)" by auto
  moreover have "n = 1"
    using assms(5,7) n by simp
  ultimately show ?thesis
    by (simp add: drop_map [symmetric])
qed


text \<open>
  Claim C8. In every store reached by a sequence of operations the recency tokens of the
  entries are pairwise different (no two entries were touched at the same time, so no
  tie arises), and every entry that a compaction or the eviction pass of an insert
  removes was touched strictly earlier than every entry that remains. In particular,
  after inserting A, B and C (none evicted) and then finding A, a compaction that leaves
  two entries has evicted B and keeps C and A.
\<close>

theorem eviction_least_recently_touched_first:
  assumes "run xs (CacheStore_ctor name m cf) = Inr s"
  shows "distinct (map recency (entries s))
   \<and> (CacheStore_compact f s = Inr s' \<and> e \<in> set (entries s) \<and> key e \<notin> key ` set (entries s')
        \<and> e' \<in> set (entries s') \<longrightarrow> recency e < recency e')
   \<and> (CacheStore_insert k v c s = Inr s'' \<and> d \<in> set (entries s) \<and> key d \<notin> key ` set (entries s'')
        \<and> d' \<in> set (entries s'') \<longrightarrow> recency d < recency d')
   \<and> (A \<noteq> B \<and> A \<noteq> C \<and> B \<noteq> C
        \<and> run [Insert A va ca, Insert B vb cb, Insert C vc cc, Find A] (CacheStore_ctor name' m' cf') = Inr t
        \<and> length (entries t) = 3
        \<and> CacheStore_compact g t = Inr t' \<and> length (entries t') = 2
        \<longrightarrow> map key (entries t') = [C, A])"
proof -
  have "store_inv (CacheStore_ctor name m cf :: ('a, 'b) CacheStore)"
    by (rule store_inv_ctor)
  then have inv: "store_inv s"
    using assms by (rule store_inv_run)
  show ?thesis
    using recency_distinct [OF inv]
      compact_evicts_least_recent [OF inv, of f s' e e']
      insert_evicts_least_recent [OF inv, of k v c s'' d d']
      lru_scenario [of A B C va ca vb cb vc cc name' m' cf' t g t']
    by blast
qed

theorem eviction_least_recently_touched_first_witness:
  "run [Insert ''A'' (1::nat) 30, Insert ''B'' 2 30, Insert ''C'' 3 30, Find ''A''] (CacheStore_ctor ''renderers'' 100 1)
     = Inr \<lparr>entries = [\<lparr>key = ''B'', payload = 2, cost = 30, recency = 1\<rparr>,
                       \<lparr>key = ''C'', payload = 3, cost = 30, recency = 2\<rparr>,
                       \<lparr>key = ''A'', payload = 1, cost = 30, recency = 3\<rparr>],
            totalCost = 90, maxCost = 100, compactionFactor = 1, clock = 4\<rparr>
   \<and> CacheStore_compact (7 / 10)
        \<lparr>entries = [\<lparr>key = ''B'', payload = 2::nat, cost = 30, recency = 1\<rparr>,
                    \<lparr>key = ''C'', payload = 3, cost = 30, recency = 2\<rparr>,
                    \<lparr>key = ''A'', payload = 1, cost = 30, recency = 3\<rparr>],
         totalCost = 90, maxCost = 100, compactionFactor = 1, clock = 4\<rparr>
     = Inr \<lparr>entries = [\<lparr>key = ''C'', payload = 3, cost = 30, recency = 2\<rparr>,
                       \<lparr>key = ''A'', payload = 1, cost = 30, recency = 3\<rparr>],
            totalCost = 60, maxCost = 100, compactionFactor = 1, clock = 4\<rparr>
   \<and> CacheStore_insert ''D'' 4 30
        \<lparr>entries = [\<lparr>key = ''B'', payload = 2::nat, cost = 30, recency = 1\<rparr>,
                    \<lparr>key = ''C'', payload = 3, cost = 30, recency = 2\<rparr>,
                    \<lparr>key = ''A'', payload = 1, cost = 30, recency = 3\<rparr>],
         totalCost = 90, maxCost = 100, compactionFactor = 1, clock = 4\<rparr>
     = Inr \<lparr>entries = [\<lparr>key = ''C'', payload = 3, cost = 30, recency = 2\<rparr>,
                       \<lparr>key = ''A'', payload = 1, cost = 30, recency = 3\<rparr>,
                       \<lparr>key = ''D'', payload = 4, cost = 30, recency = 4\<rparr>],
            totalCost = 90, maxCost = 100, compactionFactor = 1, clock = 5\<rparr>
   \<and> ''A'' \<noteq> ''B'' \<and> ''A'' \<noteq> ''C'' \<and> ''B'' \<noteq> ''C''
   \<and> distinct (map recency [\<lparr>key = ''B'', payload = 2::nat, cost = 30, recency = 1\<rparr>,
                    \<lparr>key = ''C'', payload = 3, cost = 30, recency = 2\<rparr>,
                    \<lparr>key = ''A'', payload = 1, cost = 30, recency = 3\<rparr>])
   \<and> recency \<lparr>key = ''B'', payload = 2::nat, cost = 30, recency = 1\<rparr>
       < recency \<lparr>key = ''C'', payload = 3::nat, cost = 30, recency = 2\<rparr>
   \<and> map key [\<lparr>key = ''C'', payload = 3::nat, cost = 30, recency = 2\<rparr>,
               \<lparr>key = ''A'', payload = 1, cost = 30, recency = 3\<rparr>] = [''C'', ''A'']"
proof -
  let ?B = "\<lparr>key = ''B'', payload = 2::nat, cost = 30, recency = 1\<rparr>"
  let ?C = "\<lparr>key = ''C'', payload = 3::nat, cost = 30, recency = 2\<rparr>"
  let ?A = "\<lparr>key = ''A'', payload = 1::nat, cost = 30, recency = 3\<rparr>"
  let ?D = "\<lparr>key = ''D'', payload = 4::nat, cost = 30, recency = 4\<rparr>"
  let ?s = "\<lparr>entries = [?B, ?C, ?A], totalCost = 90, maxCost = 100, compactionFactor = 1, clock = 4\<rparr>"
  let ?s' = "\<lparr>entries = [?C, ?A], totalCost = 60, maxCost = 100, compactionFactor = 1, clock = 4\<rparr>"
  let ?s'' = "\<lparr>entries = [?C, ?A, ?D], totalCost = 90, maxCost = 100, compactionFactor = 1, clock = 5\<rparr>"
  have r: "run [Insert ''A'' (1::nat) 30, Insert ''B'' 2 30, Insert ''C'' 3 30, Find ''A'']
      (CacheStore_ctor ''renderers'' 100 1) = Inr ?s"
    by (simp add: engine_defs)
  have c: "CacheStore_compact (7 / 10) ?s = Inr ?s'"
    by (simp add: engine_defs)
  have i: "CacheStore_insert ''D'' 4 30 ?s = Inr ?s''"
    by (simp add: engine_defs)
  show ?thesis
    using eviction_least_recently_touched_first [OF r, of "7 / 10" ?s' ?B ?C "''D''" 4 30 ?s'' ?B ?C
        "''A''" "''B''" "''C''" 1 30 2 30 3 30 "''renderers''" 100 1 ?s "7 / 10" ?s']
      r c i
    by simp
qed

end
